theory Spec2Isabelle
  imports Main
begin

section \<open>Characters and strings of the source language\<close>

text \<open>
  The tool \<^verbatim>\<open>kicad_auto_merge_3way.py\<close> works on Python strings. A string is modelled
  as a \<^typ>\<open>string\<close>, one \<^typ>\<open>char\<close> per code point, which covers the code points
  0 to 255. The character classes below are the ones of Python 3 on that range.
\<close>

definition isspace :: "char \<Rightarrow> bool" where
  \<comment> \<open>\<^verbatim>\<open>str.isspace\<close> on one character; the class \<^verbatim>\<open>\s\<close> of \<^verbatim>\<open>re\<close> is the same set.\<close>
  "isspace c = (let n = (of_char c :: nat) in
     (9 \<le> n \<and> n \<le> 13) \<or> (28 \<le> n \<and> n \<le> 32) \<or> n = 133 \<or> n = 160)"

definition isalnum :: "char \<Rightarrow> bool" where
  \<comment> \<open>\<^verbatim>\<open>str.isalnum\<close> on one character.\<close>
  "isalnum c = (let n = (of_char c :: nat) in
     (48 \<le> n \<and> n \<le> 57) \<or> (65 \<le> n \<and> n \<le> 90) \<or> (97 \<le> n \<and> n \<le> 122) \<or>
     n = 170 \<or> n = 178 \<or> n = 179 \<or> n = 181 \<or> n = 185 \<or> n = 186 \<or>
     (188 \<le> n \<and> n \<le> 190) \<or> (192 \<le> n \<and> n \<le> 214) \<or>
     (216 \<le> n \<and> n \<le> 246) \<or> (248 \<le> n \<and> n \<le> 255))"

definition isdigit_char :: "char \<Rightarrow> bool" where
  \<comment> \<open>\<^verbatim>\<open>str.isdigit\<close> on one character.\<close>
  "isdigit_char c = (let n = (of_char c :: nat) in
     (48 \<le> n \<and> n \<le> 57) \<or> n = 178 \<or> n = 179 \<or> n = 185)"

definition lower_char :: "char \<Rightarrow> char" where
  \<comment> \<open>\<^verbatim>\<open>str.lower\<close> on one character.\<close>
  "lower_char c = (let n = (of_char c :: nat) in
     if (65 \<le> n \<and> n \<le> 90) \<or> (192 \<le> n \<and> n \<le> 214) \<or> (216 \<le> n \<and> n \<le> 222)
     then char_of (n + 32) else c)"

definition lower :: "string \<Rightarrow> string" where
  "lower s = map lower_char s"

definition slice :: "'a list \<Rightarrow> nat \<Rightarrow> nat \<Rightarrow> 'a list" where
  \<comment> \<open>\<^verbatim>\<open>s[a:b]\<close> for indices that are not negative.\<close>
  "slice s a b = take (b - a) (drop a s)"

definition rstrip :: "string \<Rightarrow> string" where
  "rstrip s = rev (dropWhile isspace (rev s))"

definition strip :: "string \<Rightarrow> string" where
  "strip s = dropWhile isspace (rstrip s)"

fun join :: "'a list \<Rightarrow> 'a list list \<Rightarrow> 'a list" where
  \<comment> \<open>\<^verbatim>\<open>sep.join(xs)\<close>\<close>
  "join sep [] = []"
| "join sep [x] = x"
| "join sep (x # y # ys) = x @ sep @ join sep (y # ys)"

section \<open>The block scanner\<close>

definition HEAD_TOKENS :: "string set" where
  "HEAD_TOKENS = {''symbol'', ''wire'', ''junction'', ''no_connect'', ''label'',
     ''global_label'', ''hierarchical_label'', ''sheet'', ''bus'', ''bus_entry'',
     ''polyline'', ''text'', ''image'', ''group'', ''note'', ''dimension''}"

definition next_paren :: "string \<Rightarrow> nat \<Rightarrow> nat option" where
  \<comment> \<open>\<^verbatim>\<open>s.find('(', start)\<close>, with \<open>None\<close> for the result -1.\<close>
  "next_paren s start = List.find (\<lambda>j. s ! j = CHR ''('') [start ..< length s]"

function skip_while :: "(char \<Rightarrow> bool) \<Rightarrow> string \<Rightarrow> nat \<Rightarrow> nat" where
  \<comment> \<open>\<^verbatim>\<open>while j < n and P(s[j]): j += 1\<close>\<close>
  "skip_while P s j = (if j < length s \<and> P (s ! j) then skip_while P s (j + 1) else j)"
  by pat_completeness auto
termination
  by (relation "measure (\<lambda>(P, s, j). length s - j)") auto

declare skip_while.simps [simp del]

definition is_head_char :: "char \<Rightarrow> bool" where
  \<comment> \<open>\<^verbatim>\<open>s[k].isalnum() or s[k] in "_-"\<close>\<close>
  "is_head_char c = (isalnum c \<or> c = CHR ''_'' \<or> c = CHR ''-'')"

definition read_head :: "string \<Rightarrow> nat \<Rightarrow> string \<times> nat" where
  "read_head s pos =
     (let j = skip_while isspace s (pos + 1);
          k = skip_while is_head_char s j
      in (slice s j k, k))"

function match_loop :: "string \<Rightarrow> int \<Rightarrow> nat \<Rightarrow> bool \<Rightarrow> bool \<Rightarrow> nat option" where
  \<comment> \<open>The \<^verbatim>\<open>while j < n\<close> loop of \<^verbatim>\<open>match_paren\<close> on its four variables.\<close>
  "match_loop s depth j in_str esc =
     (if j < length s then
        (let c = s ! j in
         if in_str then
           (if esc then match_loop s depth (j + 1) in_str False
            else if c = CHR 0x5C then match_loop s depth (j + 1) in_str True
            else if c = CHR 0x22 then match_loop s depth (j + 1) False esc
            else match_loop s depth (j + 1) in_str esc)
         else
           (if c = CHR 0x22 then match_loop s depth (j + 1) True esc
            else if c = CHR ''('' then match_loop s (depth + 1) (j + 1) in_str esc
            else if c = CHR '')'' then
              (if depth - 1 = 0 then Some (j + 1)
               else match_loop s (depth - 1) (j + 1) in_str esc)
            else match_loop s depth (j + 1) in_str esc))
      else None)"
  by pat_completeness auto
termination
  by (relation "measure (\<lambda>(s, depth, j, in_str, esc). length s - j)") auto

declare match_loop.simps [simp del]

definition match_paren :: "string \<Rightarrow> nat \<Rightarrow> nat option" where
  "match_paren s start = match_loop s 0 start False False"

lemma next_paren_Some:
  assumes "next_paren s start = Some p"
  shows "start \<le> p" and "p < length s" and "s ! p = CHR ''(''"
  using assms unfolding next_paren_def by (auto simp: find_Some_iff)

lemma match_loop_Some: "match_loop s depth j in_str esc = Some e \<Longrightarrow> j < e \<and> e \<le> length s"
proof (induction s depth j in_str esc rule: match_loop.induct)
  case (1 s depth j in_str esc)
  have lt: "j < length s"
  proof (rule ccontr)
    assume "\<not> j < length s"
    then have "match_loop s depth j in_str esc = None"
      by (subst match_loop.simps) simp
    with "1.prems" show False by simp
  qed
  let ?c = "s ! j"
  consider (a) "in_str" "esc"
    | (b) "in_str" "\<not> esc" "?c = CHR 0x5C"
    | (c) "in_str" "\<not> esc" "?c \<noteq> CHR 0x5C" "?c = CHR 0x22"
    | (d) "in_str" "\<not> esc" "?c \<noteq> CHR 0x5C" "?c \<noteq> CHR 0x22"
    | (e) "\<not> in_str" "?c = CHR 0x22"
    | (f) "\<not> in_str" "?c \<noteq> CHR 0x22" "?c = CHR ''(''"
    | (g) "\<not> in_str" "?c \<noteq> CHR 0x22" "?c \<noteq> CHR ''(''" "?c = CHR '')''" "depth - 1 = 0"
    | (h) "\<not> in_str" "?c \<noteq> CHR 0x22" "?c \<noteq> CHR ''(''" "?c = CHR '')''" "depth - 1 \<noteq> 0"
    | (i) "\<not> in_str" "?c \<noteq> CHR 0x22" "?c \<noteq> CHR ''(''" "?c \<noteq> CHR '')''"
    by blast
  then show ?case
  proof cases
    case a
    with lt "1.prems" have "match_loop s depth (j + 1) in_str False = Some e"
      by (subst (asm) match_loop.simps) simp
    with "1.IH"(1)[OF lt refl] a show ?thesis by fastforce
  next
    case b
    with lt "1.prems" have "match_loop s depth (j + 1) in_str True = Some e"
      by (subst (asm) match_loop.simps) simp
    with "1.IH"(2)[OF lt refl] b show ?thesis by fastforce
  next
    case c
    with lt "1.prems" have "match_loop s depth (j + 1) False esc = Some e"
      by (subst (asm) match_loop.simps) simp
    with "1.IH"(3)[OF lt refl] c show ?thesis by fastforce
  next
    case d
    with lt "1.prems" have "match_loop s depth (j + 1) in_str esc = Some e"
      by (subst (asm) match_loop.simps) simp
    with "1.IH"(4)[OF lt refl] d show ?thesis by fastforce
  next
    case e
    with lt "1.prems" have "match_loop s depth (j + 1) True esc = Some e"
      by (subst (asm) match_loop.simps) simp
    with "1.IH"(5)[OF lt refl] e show ?thesis by fastforce
  next
    case f
    with lt "1.prems" have "match_loop s (depth + 1) (j + 1) in_str esc = Some e"
      by (subst (asm) match_loop.simps) simp
    with "1.IH"(6)[OF lt refl] f show ?thesis by fastforce
  next
    case g
    with lt "1.prems" have "e = j + 1"
      by (subst (asm) match_loop.simps) simp
    with lt show ?thesis by simp
  next
    case h
    with lt "1.prems" have "match_loop s (depth - 1) (j + 1) in_str esc = Some e"
      by (subst (asm) match_loop.simps) simp
    with "1.IH"(7)[OF lt refl] h show ?thesis by fastforce
  next
    case i
    with lt "1.prems" have "match_loop s depth (j + 1) in_str esc = Some e"
      by (subst (asm) match_loop.simps) simp
    with "1.IH"(8)[OF lt refl] i show ?thesis by fastforce
  qed
qed

lemma match_paren_Some: "match_paren s p = Some e \<Longrightarrow> p < e \<and> e \<le> length s"
  unfolding match_paren_def by (rule match_loop_Some)

section \<open>The identity resolver\<close>

definition is_hex_dash :: "char \<Rightarrow> bool" where
  \<comment> \<open>the class \<^verbatim>\<open>[0-9a-fA-F-]\<close>\<close>
  "is_hex_dash c = (let n = (of_char c :: nat) in
     (48 \<le> n \<and> n \<le> 57) \<or> (97 \<le> n \<and> n \<le> 102) \<or> (65 \<le> n \<and> n \<le> 70) \<or> n = 45)"

definition uuid_match_at :: "string \<Rightarrow> nat \<Rightarrow> string option" where
  \<comment> \<open>A match of \<^verbatim>\<open>\(uuid\s+([0-9a-fA-F-]{8,})\)\<close> that starts at index \<open>i\<close>, as group 1.
     Both repetitions are greedy and the character after each run is outside its class,
     so only the longest runs can match.\<close>
  "uuid_match_at s i =
     (if slice s i (i + 5) = ''(uuid'' then
        (let j = skip_while isspace s (i + 5) in
         if j = i + 5 then None
         else (let k = skip_while is_hex_dash s j in
               if 8 \<le> k - j \<and> k < length s \<and> s ! k = CHR '')'' then Some (slice s j k)
               else None))
      else None)"

definition uuid_search :: "string \<Rightarrow> string option" where
  \<comment> \<open>\<^verbatim>\<open>re.search\<close>: the leftmost start index with a match.\<close>
  "uuid_search block =
     (case List.find (\<lambda>i. uuid_match_at block i \<noteq> None) [0 ..< length block] of
        None \<Rightarrow> None
      | Some i \<Rightarrow> uuid_match_at block i)"

definition block_uid :: "(string \<Rightarrow> string) \<Rightarrow> string \<Rightarrow> string" where
  \<comment> \<open>The identity of a block. \<open>sha\<close> stands for
     \<^verbatim>\<open>hashlib.sha1(block.encode("utf-8")).hexdigest()\<close>, a library function.\<close>
  "block_uid sha block =
     (case uuid_search block of
        Some tok \<Rightarrow> lower tok
      | None \<Rightarrow> sha block)"

type_synonym key = "string \<times> string"

function parse_loop :: "(string \<Rightarrow> string) \<Rightarrow> string \<Rightarrow> nat \<Rightarrow> (string \<times> string \<times> string) list" where
  \<comment> \<open>The \<^verbatim>\<open>while True\<close> loop of \<^verbatim>\<open>parse_top_blocks\<close> from position \<open>pos\<close>;
     the result is what the loop appends to \<^verbatim>\<open>out\<close>.\<close>
  "parse_loop sha s pos =
     (case next_paren s pos of
        None \<Rightarrow> []
      | Some p \<Rightarrow>
          (case match_paren s p of
             None \<Rightarrow> []
           | Some e \<Rightarrow>
               (let head = fst (read_head s p); block = slice s p e in
                (if head \<in> HEAD_TOKENS then [(head, block_uid sha block, block)] else [])
                @ parse_loop sha s e)))"
  by pat_completeness auto
termination
proof (relation "measure (\<lambda>(sha, s, pos). length s - pos)")
  show "wf (measure (\<lambda>(sha, s, pos). length s - pos))" by simp
next
  fix sha :: "string \<Rightarrow> string" and s pos p e
  assume "next_paren s pos = Some p" and "match_paren s p = Some e"
  then have "pos \<le> p" "p < e" "e \<le> length s" "p < length s"
    using next_paren_Some match_paren_Some by blast+
  then show "((sha, s, e), (sha, s, pos)) \<in> measure (\<lambda>(sha, s, pos). length s - pos)"
    by simp
qed

declare parse_loop.simps [simp del]

definition parse_top_blocks :: "(string \<Rightarrow> string) \<Rightarrow> string option \<Rightarrow> (string \<times> string \<times> string) list" where
  "parse_top_blocks sha text =
     (case text of None \<Rightarrow> [] | Some s \<Rightarrow> parse_loop sha s 0)"

function find_loop :: "(string \<Rightarrow> string) \<Rightarrow> string \<Rightarrow> nat \<Rightarrow> (string \<times> string \<times> nat \<times> nat \<times> string) list" where
  \<comment> \<open>The same loop inside \<^verbatim>\<open>find_blocks_with_pos\<close>, which also records the span.\<close>
  "find_loop sha s pos =
     (case next_paren s pos of
        None \<Rightarrow> []
      | Some p \<Rightarrow>
          (case match_paren s p of
             None \<Rightarrow> []
           | Some e \<Rightarrow>
               (let head = fst (read_head s p); block = slice s p e in
                (if head \<in> HEAD_TOKENS then [(head, block_uid sha block, p, e, block)] else [])
                @ find_loop sha s e)))"
  by pat_completeness auto
termination
proof (relation "measure (\<lambda>(sha, s, pos). length s - pos)")
  show "wf (measure (\<lambda>(sha, s, pos). length s - pos))" by simp
next
  fix sha :: "string \<Rightarrow> string" and s pos p e
  assume "next_paren s pos = Some p" and "match_paren s p = Some e"
  then have "pos \<le> p" "p < e" "e \<le> length s" "p < length s"
    using next_paren_Some match_paren_Some by blast+
  then show "((sha, s, e), (sha, s, pos)) \<in> measure (\<lambda>(sha, s, pos). length s - pos)"
    by simp
qed

declare find_loop.simps [simp del]

definition find_blocks_with_pos :: "(string \<Rightarrow> string) \<Rightarrow> string \<Rightarrow> (string \<times> string \<times> nat \<times> nat \<times> string) list" where
  "find_blocks_with_pos sha text = find_loop sha text 0"

section \<open>The document rebuilder\<close>

datatype error = KeyError

definition lookup :: "('k \<rightharpoonup> 'v) \<Rightarrow> 'k \<Rightarrow> error + 'v" where
  \<comment> \<open>\<^verbatim>\<open>d[k]\<close>, which raises \<^verbatim>\<open>KeyError\<close> for a key that is absent.\<close>
  "lookup d k = (case d k of None \<Rightarrow> Inl KeyError | Some v \<Rightarrow> Inr v)"

fun lookup_all :: "('k \<rightharpoonup> 'v) \<Rightarrow> 'k list \<Rightarrow> error + 'v list" where
  \<comment> \<open>\<^verbatim>\<open>[d[k] for k in ks]\<close>\<close>
  "lookup_all d [] = Inr []"
| "lookup_all d (k # ks) =
     (case lookup d k of
        Inl e \<Rightarrow> Inl e
      | Inr v \<Rightarrow> (case lookup_all d ks of Inl e \<Rightarrow> Inl e | Inr vs \<Rightarrow> Inr (v # vs)))"

definition skeleton :: string where
  "skeleton = ''(kicad_sch (version 20211014) (generator merged)'' @ [CHR 0x0A] @ '')''"

definition rebuild_body ::
  "string \<Rightarrow> key set \<Rightarrow> (key \<rightharpoonup> string) \<Rightarrow> string \<times> string \<times> nat \<times> nat \<times> string \<Rightarrow>
   string list \<times> nat \<times> key set \<Rightarrow> string list \<times> nat \<times> key set" where
  \<comment> \<open>One pass of \<^verbatim>\<open>for head, uid, start, end, block in blocks_pos\<close> on the variables
     \<^verbatim>\<open>out\<close>, \<^verbatim>\<open>last\<close> and \<^verbatim>\<open>present_keys\<close>.\<close>
  "rebuild_body s keep_map replace_map =
     (\<lambda>(head, uid, start, fin, block) (out, lst, present_keys).
        let key = (head, uid) in
        if key \<in> keep_map then
          (out @ [slice s lst start,
                  (case replace_map key of Some r \<Rightarrow> r | None \<Rightarrow> block)],
           fin, insert key present_keys)
        else (out @ [slice s lst start], fin, present_keys))"

definition endswith_rparen :: "string \<Rightarrow> bool" where
  \<comment> \<open>\<^verbatim>\<open>merged.endswith(")")\<close>\<close>
  "endswith_rparen s = (s \<noteq> [] \<and> last s = CHR '')'')"

definition rebuild_from ::
  "(string \<Rightarrow> string) \<Rightarrow> (key set \<Rightarrow> key list) \<Rightarrow> string option \<Rightarrow> key set \<Rightarrow>
   (key \<rightharpoonup> string) \<Rightarrow> error + string" where
  \<comment> \<open>\<open>iter\<close> is the order in which Python iterates over a set, which the language
     leaves open; \<^verbatim>\<open>keep_map\<close> is a set at the only call.\<close>
  "rebuild_from sha iter base_text keep_map replace_map =
     (let s = (case base_text of None \<Rightarrow> skeleton | Some t \<Rightarrow> t);
          blocks_pos = find_blocks_with_pos sha s;
          (out, lst, present_keys) =
             fold (rebuild_body s keep_map replace_map) blocks_pos ([], 0, {});
          merged = rstrip (concat (out @ [drop lst s]))
      in case lookup_all replace_map (filter (\<lambda>k. k \<notin> present_keys) (iter keep_map)) of
           Inl e \<Rightarrow> Inl e
         | Inr missing \<Rightarrow>
             Inr (if missing \<noteq> [] then
                    (if endswith_rparen merged then butlast merged else merged)
                    @ [CHR 0x0A] @ join [CHR 0x0A, CHR 0x0A] missing @ [CHR 0x0A] @ '')''
                  else merged))"

section \<open>The three-way reconciler\<close>

definition dict_of :: "(string \<times> string \<times> string) list \<Rightarrow> (key \<rightharpoonup> string)" where
  \<comment> \<open>\<^verbatim>\<open>{(h,u):blk for (h,u,blk) in blocks}\<close>: a later block with the same key
     replaces an earlier one.\<close>
  "dict_of blocks = fold (\<lambda>(h, u, blk) d. d((h, u) \<mapsto> blk)) blocks Map.empty"

definition snapshot :: "(string \<Rightarrow> string) \<Rightarrow> string option \<Rightarrow> (key \<rightharpoonup> string)" where
  \<comment> \<open>\<^verbatim>\<open>{(h,u):blk for (h,u,blk) in parse_top_blocks(txt)}\<close>\<close>
  "snapshot sha txt = dict_of (parse_top_blocks sha txt)"

definition choose_overlap ::
  "string \<Rightarrow> (key \<rightharpoonup> string) \<Rightarrow> (key \<rightharpoonup> string) \<Rightarrow> key \<Rightarrow> error + string" where
  "choose_overlap mode B H k = (if mode = ''prefer-head'' then lookup H k else lookup B k)"

definition keep_with ::
  "key \<Rightarrow> key set \<times> (key \<rightharpoonup> string) \<Rightarrow> error + string \<Rightarrow>
   error + key set \<times> (key \<rightharpoonup> string)" where
  \<comment> \<open>\<^verbatim>\<open>keep_keys.add((h,u)); replace_map[(h,u)] = blk\<close>\<close>
  "keep_with k st r =
     (case r of
        Inl e \<Rightarrow> Inl e
      | Inr blk \<Rightarrow> (case st of (keep_keys, replace_map) \<Rightarrow>
                     Inr (insert k keep_keys, replace_map(k \<mapsto> blk))))"

definition decide ::
  "(key \<rightharpoonup> string) \<Rightarrow> (key \<rightharpoonup> string) \<Rightarrow> (key \<rightharpoonup> string) \<Rightarrow> string \<Rightarrow> bool \<Rightarrow> key \<Rightarrow>
   key set \<times> (key \<rightharpoonup> string) \<Rightarrow> error + key set \<times> (key \<rightharpoonup> string)" where
  \<comment> \<open>The body of \<^verbatim>\<open>for (h,u) in keys\<close>.\<close>
  "decide M B H mode allow_deletions k st =
     (let inM = (M k \<noteq> None); inB = (B k \<noteq> None); inH = (H k \<noteq> None) in
      if \<not> inM \<and> inB \<and> \<not> inH then keep_with k st (lookup B k)
      else if \<not> inM \<and> \<not> inB \<and> inH then keep_with k st (lookup H k)
      else if inM \<and> inB \<and> \<not> inH then
        (if allow_deletions then Inr st else keep_with k st (lookup B k))
      else if inM \<and> \<not> inB \<and> inH then keep_with k st (lookup H k)
      else if inM \<and> inB \<and> inH then keep_with k st (choose_overlap mode B H k)
      else if \<not> inM \<and> inB \<and> inH then keep_with k st (choose_overlap mode B H k)
      else Inr st)"

fun decide_all ::
  "(key \<rightharpoonup> string) \<Rightarrow> (key \<rightharpoonup> string) \<Rightarrow> (key \<rightharpoonup> string) \<Rightarrow> string \<Rightarrow> bool \<Rightarrow> key list \<Rightarrow>
   key set \<times> (key \<rightharpoonup> string) \<Rightarrow> error + key set \<times> (key \<rightharpoonup> string)" where
  "decide_all M B H mode allow_deletions [] st = Inr st"
| "decide_all M B H mode allow_deletions (k # ks) st =
     (case decide M B H mode allow_deletions k st of
        Inl e \<Rightarrow> Inl e
      | Inr st' \<Rightarrow> decide_all M B H mode allow_deletions ks st')"

definition reconcile ::
  "(string \<Rightarrow> string) \<Rightarrow> (key set \<Rightarrow> key list) \<Rightarrow> string option \<Rightarrow> string option \<Rightarrow>
   string option \<Rightarrow> string \<Rightarrow> bool \<Rightarrow> error + key set \<times> (key \<rightharpoonup> string)" where
  \<comment> \<open>\<^verbatim>\<open>merge_kicad_3way\<close> up to the call of \<^verbatim>\<open>rebuild_from\<close>: the pair of
     \<^verbatim>\<open>keep_keys\<close> and \<^verbatim>\<open>replace_map\<close>. The three texts are the results of
     \<^verbatim>\<open>git_show\<close>, \<open>None\<close> for a file that does not exist at the revision.\<close>
  "reconcile sha iter mb_txt base_txt head_txt mode allow_deletions =
     (let M = snapshot sha mb_txt;
          B = snapshot sha base_txt;
          H = snapshot sha head_txt;
          keys = dom M \<union> dom B \<union> dom H
      in decide_all M B H mode allow_deletions (iter keys) ({}, Map.empty))"

definition merge_kicad_3way ::
  "(string \<Rightarrow> string) \<Rightarrow> (key set \<Rightarrow> key list) \<Rightarrow> string option \<Rightarrow> string option \<Rightarrow>
   string option \<Rightarrow> string \<Rightarrow> bool \<Rightarrow> error + string" where
  "merge_kicad_3way sha iter mb_txt base_txt head_txt mode allow_deletions =
     (case reconcile sha iter mb_txt base_txt head_txt mode allow_deletions of
        Inl e \<Rightarrow> Inl e
      | Inr (keep_keys, replace_map) \<Rightarrow> rebuild_from sha iter base_txt keep_keys replace_map)"

section \<open>The record merger of the footprint cache\<close>

definition is_ident_char :: "char \<Rightarrow> bool" where
  \<comment> \<open>the class \<^verbatim>\<open>[A-Za-z0-9_:\-\.]\<close>\<close>
  "is_ident_char c = (let n = (of_char c :: nat) in
     (65 \<le> n \<and> n \<le> 90) \<or> (97 \<le> n \<and> n \<le> 122) \<or> (48 \<le> n \<and> n \<le> 57) \<or>
     n = 95 \<or> n = 58 \<or> n = 45 \<or> n = 46)"

definition isdigit :: "string \<Rightarrow> bool" where
  \<comment> \<open>\<^verbatim>\<open>s.isdigit()\<close>\<close>
  "isdigit s = (s \<noteq> [] \<and> list_all isdigit_char s)"

definition startswith :: "string \<Rightarrow> string \<Rightarrow> bool" where
  \<comment> \<open>\<^verbatim>\<open>s.startswith(p)\<close>\<close>
  "startswith s p = (take (length p) s = p)"

definition is_category_line :: "string \<Rightarrow> bool" where
  "is_category_line line =
     (let s = strip line in
      if s = [] then False
      else if CHR '' '' \<in> set s then False
      else if startswith (lower s) ''http'' then False
      else if isdigit s then False
      else s \<noteq> [] \<and> list_all is_ident_char s)"

definition is_linebreak :: "char \<Rightarrow> bool" where
  \<comment> \<open>the line boundaries of \<^verbatim>\<open>str.splitlines\<close> that are one character long\<close>
  "is_linebreak c = (let n = (of_char c :: nat) in
     (10 \<le> n \<and> n \<le> 13) \<or> (28 \<le> n \<and> n \<le> 30) \<or> n = 133)"

fun splitlines_from :: "string \<Rightarrow> string \<Rightarrow> string list" where
  \<comment> \<open>\<^verbatim>\<open>str.splitlines\<close>; the first argument is the line read so far.\<close>
  "splitlines_from cur [] = (if cur = [] then [] else [cur])"
| "splitlines_from cur [c] = (if is_linebreak c then [cur] else [cur @ [c]])"
| "splitlines_from cur (c # d # cs) =
     (if c = CHR 0x0D \<and> d = CHR 0x0A then cur # splitlines_from [] cs
      else if is_linebreak c then cur # splitlines_from [] (d # cs)
      else splitlines_from (cur @ [c]) (d # cs))"

definition splitlines :: "string \<Rightarrow> string list" where
  "splitlines s = splitlines_from [] s"

function next_header :: "string list \<Rightarrow> nat \<Rightarrow> nat" where
  \<comment> \<open>The inner \<^verbatim>\<open>while j < len(lines) - 1\<close> loop of \<^verbatim>\<open>parse_info_blocks\<close>:
     the value of \<open>j\<close> when the loop is left.\<close>
  "next_header lines j =
     (if j < length lines - 1 then
        (if is_category_line (lines ! j) \<and> is_category_line (lines ! (j + 1)) then j
         else next_header lines (j + 1))
      else j)"
  by pat_completeness auto
termination
  by (relation "measure (\<lambda>(lines, j). length lines - j)") auto

declare next_header.simps [simp del]

lemma next_header_ge: "j \<le> next_header lines j"
proof (induction lines j rule: next_header.induct)
  case (1 lines j)
  show ?case
  proof (cases "j < length lines - 1 \<and>
      \<not> (is_category_line (lines ! j) \<and> is_category_line (lines ! (j + 1)))")
    case True
    then have "next_header lines j = next_header lines (j + 1)"
      by (subst next_header.simps) auto
    with "1.IH" True show ?thesis by simp
  next
    case False
    then have "next_header lines j = j"
      by (subst next_header.simps) auto
    then show ?thesis by simp
  qed
qed

function info_loop :: "string list \<Rightarrow> nat \<Rightarrow> ((string \<times> string) \<times> string list) list" where
  \<comment> \<open>The outer \<^verbatim>\<open>while i < len(lines) - 1\<close> loop: what it appends to \<^verbatim>\<open>blocks\<close>.\<close>
  "info_loop lines i =
     (if i < length lines - 1 then
        (if is_category_line (lines ! i) \<and> is_category_line (lines ! (i + 1)) then
           (let cat = strip (lines ! i);
                fpn = strip (lines ! (i + 1));
                j = next_header lines (i + 2)
            in ((cat, fpn), slice lines i j) # info_loop lines j)
         else info_loop lines (i + 1))
      else [])"
  by pat_completeness auto
termination
proof (relation "measure (\<lambda>(lines, i). length lines - i)")
  show "wf (measure (\<lambda>(lines, i). length lines - i))" by simp
next
  fix lines :: "string list" and i x xa xb
  assume "i < length lines - 1" and "xb = next_header lines (i + 2)"
  moreover have "i + 2 \<le> next_header lines (i + 2)" by (rule next_header_ge)
  ultimately show "((lines, xb), (lines, i)) \<in> measure (\<lambda>(lines, i). length lines - i)"
    by simp
next
  fix lines :: "string list" and i
  assume "i < length lines - 1"
  then show "((lines, i + 1), (lines, i)) \<in> measure (\<lambda>(lines, i). length lines - i)"
    by simp
qed

declare info_loop.simps [simp del]

definition parse_info_blocks :: "string option \<Rightarrow> ((string \<times> string) \<times> string list) list" where
  "parse_info_blocks text =
     (case text of None \<Rightarrow> [] | Some s \<Rightarrow> info_loop (splitlines s) 0)"

definition add_record ::
  "(string \<times> string) \<times> string list \<Rightarrow>
   (string \<times> string \<rightharpoonup> string list) \<times> (string \<times> string) list \<Rightarrow>
   (string \<times> string \<rightharpoonup> string list) \<times> (string \<times> string) list" where
  \<comment> \<open>The body of \<^verbatim>\<open>for key, blines in parse_info_blocks(txt)\<close> on the variables
     \<^verbatim>\<open>out\<close> and \<^verbatim>\<open>order\<close>.\<close>
  "add_record = (\<lambda>(key, blines) (out, order).
     (out(key \<mapsto> blines), if out key = None then order @ [key] else order))"

definition add_blocks ::
  "string \<Rightarrow> (string \<times> string \<rightharpoonup> string list) \<times> (string \<times> string) list \<Rightarrow>
   (string \<times> string \<rightharpoonup> string list) \<times> (string \<times> string) list" where
  "add_blocks txt st = fold add_record (parse_info_blocks (Some txt)) st"

definition or_empty :: "string option \<Rightarrow> string" where
  \<comment> \<open>\<^verbatim>\<open>git_show(...) or ""\<close>\<close>
  "or_empty t = (case t of None \<Rightarrow> [] | Some s \<Rightarrow> s)"

definition merge_fp_info_3way :: "string option \<Rightarrow> string option \<Rightarrow> string option \<Rightarrow> error + string" where
  \<comment> \<open>The three arguments are the results of \<^verbatim>\<open>git_show\<close> at the merge base, at the
     base branch and at \<^verbatim>\<open>HEAD\<close>.\<close>
  "merge_fp_info_3way mb base head =
     (let mb_txt = or_empty mb; base_txt = or_empty base; head_txt = or_empty head;
          (out, order) = add_blocks head_txt (add_blocks base_txt (add_blocks mb_txt (Map.empty, [])))
      in case lookup_all out order of
           Inl e \<Rightarrow> Inl e
         | Inr blocks \<Rightarrow> Inr (join [CHR 0x0A] (concat blocks) @ [CHR 0x0A]))"

section \<open>Records of the footprint cache\<close>

text \<open>
  Claim C9: a record runs from its two header lines up to the next pair of header lines or
  through the end of the document, so that the last record holds every remaining line,
  the last line of the document included.

  The code does not do this. The inner loop of \<^verbatim>\<open>parse_info_blocks\<close> runs while
  \<^verbatim>\<open>j < len(lines) - 1\<close> and the record is \<^verbatim>\<open>lines[i:j]\<close>, so a last record of three
  or more lines loses the last line of the document. On the four lines
  \<^verbatim>\<open>Cat\<close>, \<^verbatim>\<open>Name\<close>, \<^verbatim>\<open>a b\<close>, \<^verbatim>\<open>c d\<close> the only record is the first three lines, and
  merging a cache that exists only at \<^verbatim>\<open>HEAD\<close> writes these three lines.
\<close>

theorem parse_info_blocks_drops_last_line:
  "splitlines (''Cat'' @ [CHR 0x0A] @ ''Name'' @ [CHR 0x0A] @ ''a b'' @ [CHR 0x0A] @ ''c d'')
     = [''Cat'', ''Name'', ''a b'', ''c d''] \<and>
   parse_info_blocks
     (Some (''Cat'' @ [CHR 0x0A] @ ''Name'' @ [CHR 0x0A] @ ''a b'' @ [CHR 0x0A] @ ''c d''))
     = [((''Cat'', ''Name''), [''Cat'', ''Name'', ''a b''])] \<and>
   merge_fp_info_3way None None
     (Some (''Cat'' @ [CHR 0x0A] @ ''Name'' @ [CHR 0x0A] @ ''a b'' @ [CHR 0x0A] @ ''c d''))
     = Inr (''Cat'' @ [CHR 0x0A] @ ''Name'' @ [CHR 0x0A] @ ''a b'' @ [CHR 0x0A])"
  by code_simp

lemma is_category_line_no_http:
  "is_category_line line \<Longrightarrow> \<not> startswith (lower (strip line)) ''http''"
  unfolding is_category_line_def by (simp add: Let_def split: if_splits)

lemma info_loop_keys:
  "(key, blines) \<in> set (info_loop lines i) \<Longrightarrow>
     \<exists>a b. key = (strip a, strip b) \<and> is_category_line a \<and> is_category_line b"
proof (induction lines i rule: info_loop.induct)
  case (1 lines i)
  show ?case
  proof (cases "i < length lines - 1")
    case False
    then have "info_loop lines i = []" by (subst info_loop.simps) simp
    with "1.prems" show ?thesis by simp
  next
    case lt: True
    show ?thesis
    proof (cases "is_category_line (lines ! i) \<and> is_category_line (lines ! (i + 1))")
      case True
      then have "info_loop lines i =
          ((strip (lines ! i), strip (lines ! (i + 1))), slice lines i (next_header lines (i + 2)))
          # info_loop lines (next_header lines (i + 2))"
        using lt by (subst info_loop.simps) (simp add: Let_def)
      with "1.prems" consider "key = (strip (lines ! i), strip (lines ! (i + 1)))"
        | "(key, blines) \<in> set (info_loop lines (next_header lines (i + 2)))"
        by auto
      then show ?thesis
      proof cases
        case 1
        with True show ?thesis by blast
      next
        case 2
        with "1.IH"(1)[OF lt True refl refl refl] show ?thesis by blast
      qed
    next
      case False
      then have "info_loop lines i = info_loop lines (i + 1)"
        using lt by (subst info_loop.simps) auto
      with "1.prems" "1.IH"(2)[OF lt False] show ?thesis by simp
    qed
  qed
qed

text \<open>
  Claim C10: a line whose stripped text begins with \<^verbatim>\<open>http\<close> in any letter case is never
  a header candidate, whatever else it consists of, so neither component of a record key
  begins with \<^verbatim>\<open>http\<close> in any letter case.
\<close>

theorem http_lines_are_never_headers:
  "(startswith (lower (strip line)) ''http'' \<longrightarrow> \<not> is_category_line line) \<and>
   (\<forall>((cat, fpn), blines) \<in> set (parse_info_blocks doc).
      \<not> startswith (lower cat) ''http'' \<and> \<not> startswith (lower fpn) ''http'')"
proof (intro conjI)
  show "startswith (lower (strip line)) ''http'' \<longrightarrow> \<not> is_category_line line"
    using is_category_line_no_http by blast
next
  show "\<forall>((cat, fpn), blines) \<in> set (parse_info_blocks doc).
      \<not> startswith (lower cat) ''http'' \<and> \<not> startswith (lower fpn) ''http''"
  proof (cases doc)
    case None
    then show ?thesis by (simp add: parse_info_blocks_def)
  next
    case (Some s)
    { fix cat fpn blines
      assume "((cat, fpn), blines) \<in> set (info_loop (splitlines s) 0)"
      from info_loop_keys[OF this] obtain a b
        where "cat = strip a" "fpn = strip b" "is_category_line a" "is_category_line b"
        by auto
      then have "\<not> startswith (lower cat) ''http'' \<and> \<not> startswith (lower fpn) ''http''"
        using is_category_line_no_http by blast }
    with Some show ?thesis by (auto simp: parse_info_blocks_def)
  qed
qed

theorem http_lines_are_never_headers_witness:
  "startswith (lower (strip ''httpd'')) ''http'' \<and> list_all is_ident_char ''httpd'' \<and>
   \<not> is_category_line ''httpd'' \<and>
   parse_info_blocks (Some (''httpd'' @ [CHR 0x0A] @ ''Cat'' @ [CHR 0x0A] @ ''Name'' @ [CHR 0x0A] @ ''x y''))
     = [((''Cat'', ''Name''), [''Cat'', ''Name''])] \<and>
   \<not> startswith (lower ''Cat'') ''http'' \<and> \<not> startswith (lower ''Name'') ''http''"
proof -
  have e1: "startswith (lower (strip ''httpd'')) ''http''" by code_simp
  have e2: "list_all is_ident_char ''httpd''" by code_simp
  have e3: "parse_info_blocks (Some (''httpd'' @ [CHR 0x0A] @ ''Cat'' @ [CHR 0x0A] @ ''Name'' @ [CHR 0x0A] @ ''x y''))
     = [((''Cat'', ''Name''), [''Cat'', ''Name''])]" by code_simp
  show ?thesis
    using http_lines_are_never_headers[of "''httpd''"
        "Some (''httpd'' @ [CHR 0x0A] @ ''Cat'' @ [CHR 0x0A] @ ''Name'' @ [CHR 0x0A] @ ''x y'')"]
      e1 e2 e3
    by simp
qed

subsection \<open>The union of three caches\<close>

text \<open>
  The specification of the merger speaks of the order in which keys are first seen and of
  the version of a record that was processed last. These two notions, on a list of
  records in processing order:
\<close>

fun first_seen :: "'a list \<Rightarrow> 'a list" where
  "first_seen [] = []"
| "first_seen (x # xs) = x # filter (\<lambda>y. y \<noteq> x) (first_seen xs)"

definition latest :: "('k \<times> 'v list) list \<Rightarrow> 'k \<Rightarrow> 'v list" where
  "latest recs k = (case map_of (rev recs) k of None \<Rightarrow> [] | Some v \<Rightarrow> v)"

definition records :: "string option \<Rightarrow> ((string \<times> string) \<times> string list) list" where
  "records t = parse_info_blocks (Some (or_empty t))"

lemma set_first_seen: "set (first_seen xs) = set xs"
  by (induction xs) auto

lemma distinct_first_seen: "distinct (first_seen xs)"
  by (induction xs) (auto simp: set_first_seen)

lemma first_seen_append:
  "first_seen (xs @ ys) = first_seen xs @ filter (\<lambda>y. y \<notin> set xs) (first_seen ys)"
proof (induction xs)
  case Nil
  show ?case by simp
next
  case (Cons x xs)
  have "filter (\<lambda>y. y \<noteq> x) (filter (\<lambda>y. y \<notin> set xs) (first_seen ys))
      = filter (\<lambda>y. y \<notin> set (x # xs)) (first_seen ys)"
    by (auto intro: filter_cong)
  with Cons show ?case by simp
qed

lemma fold_add_record:
  "fold add_record recs (out, order) =
     (out ++ map_of (rev recs),
      order @ filter (\<lambda>k. out k = None) (first_seen (map fst recs)))"
proof (induction recs arbitrary: out order)
  case Nil
  show ?case by simp
next
  case (Cons r recs)
  obtain k v where r: "r = (k, v)" by (cases r)
  let ?out = "out(k \<mapsto> v)" and ?order = "if out k = None then order @ [k] else order"
  have m: "?out ++ map_of (rev recs) = out ++ map_of (rev (r # recs))"
    unfolding r by (rule ext) (simp add: map_add_def split: option.splits)
  have f: "filter (\<lambda>x. ?out x = None) (first_seen (map fst recs))
         = filter (\<lambda>x. out x = None) (filter (\<lambda>y. y \<noteq> k) (first_seen (map fst recs)))"
    by (auto intro: filter_cong)
  have o: "?order @ filter (\<lambda>x. ?out x = None) (first_seen (map fst recs))
         = order @ filter (\<lambda>x. out x = None) (first_seen (map fst (r # recs)))"
    unfolding f r by simp
  have "fold add_record (r # recs) (out, order) = fold add_record recs (?out, ?order)"
    by (simp add: r add_record_def)
  also have "\<dots> = (?out ++ map_of (rev recs),
       ?order @ filter (\<lambda>x. ?out x = None) (first_seen (map fst recs)))"
    by (rule Cons.IH)
  finally show ?case unfolding m o .
qed

lemma lookup_all_latest:
  "set ks \<subseteq> fst ` set recs \<Longrightarrow> lookup_all (map_of (rev recs)) ks = Inr (map (latest recs) ks)"
proof (induction ks)
  case Nil
  show ?case by simp
next
  case (Cons k ks)
  then have "k \<in> fst ` set (rev recs)" by simp
  then obtain v where "map_of (rev recs) k = Some v"
    by (meson domD domI map_of_eq_None_iff option.exhaust)
  with Cons show ?case by (simp add: lookup_def latest_def)
qed

lemma latest_append:
  "latest (xs @ ys) k = (if k \<in> fst ` set ys then latest ys k else latest xs k)"
proof (cases "map_of (rev ys) k")
  case None
  then have "k \<notin> fst ` set ys" by (simp add: map_of_eq_None_iff)
  with None show ?thesis by (simp add: latest_def map_add_def)
next
  case (Some v)
  then have "k \<in> fst ` set ys"
    by (metis map_of_eq_None_iff option.distinct(1) set_rev)
  with Some show ?thesis by (simp add: latest_def map_add_def)
qed

text \<open>
  Claim C8: the merger processes the records of the ancestor, then of the mainline, then
  of the proposed document; the first occurrence of a key fixes its place in the output
  and every later occurrence replaces the stored lines, so that the proposed version of
  a key wins over the mainline one, which wins over the ancestor one.
\<close>

theorem record_union_order_and_precedence:
  "merge_fp_info_3way mb base head =
     Inr (join [CHR 0x0A]
            (concat (map (latest (records mb @ records base @ records head))
                         (first_seen (map fst (records mb @ records base @ records head)))))
          @ [CHR 0x0A]) \<and>
   first_seen (map fst (records mb @ records base @ records head)) =
     first_seen (map fst (records mb))
     @ filter (\<lambda>k. k \<notin> fst ` set (records mb)) (first_seen (map fst (records base)))
     @ filter (\<lambda>k. k \<notin> fst ` set (records mb) \<and> k \<notin> fst ` set (records base))
         (first_seen (map fst (records head))) \<and>
   latest (records mb @ records base @ records head) k =
     (if k \<in> fst ` set (records head) then latest (records head) k
      else if k \<in> fst ` set (records base) then latest (records base) k
      else latest (records mb) k)"
proof -
  let ?all = "records mb @ records base @ records head"
  have "add_blocks (or_empty head) (add_blocks (or_empty base) (add_blocks (or_empty mb) (Map.empty, [])))
      = (map_of (rev ?all), first_seen (map fst ?all))"
    unfolding add_blocks_def records_def[symmetric]
    by (simp add: fold_add_record first_seen_append map_of_eq_None_iff)
  moreover have "lookup_all (map_of (rev ?all)) (first_seen (map fst ?all))
      = Inr (map (latest ?all) (first_seen (map fst ?all)))"
    by (rule lookup_all_latest) (auto simp: set_first_seen)
  ultimately have "merge_fp_info_3way mb base head =
     Inr (join [CHR 0x0A] (concat (map (latest ?all) (first_seen (map fst ?all)))) @ [CHR 0x0A])"
    by (simp add: merge_fp_info_3way_def Let_def)
  moreover have "first_seen (map fst ?all) =
     first_seen (map fst (records mb))
     @ filter (\<lambda>k. k \<notin> fst ` set (records mb)) (first_seen (map fst (records base)))
     @ filter (\<lambda>k. k \<notin> fst ` set (records mb) \<and> k \<notin> fst ` set (records base))
         (first_seen (map fst (records head)))"
    by (simp add: first_seen_append conj_commute)
  moreover have "latest ?all k =
     (if k \<in> fst ` set (records head) then latest (records head) k
      else if k \<in> fst ` set (records base) then latest (records base) k
      else latest (records mb) k)"
    by (auto simp: latest_append image_Un)
  ultimately show ?thesis by blast
qed

text \<open>
  The example of the specification: the ancestor holds a record of one extra line
  \<^verbatim>\<open>old 1\<close> under the key \<^verbatim>\<open>(Cat, Name)\<close>, the mainline is unchanged and the proposed
  document holds \<^verbatim>\<open>new 1\<close>.
\<close>

lemma record_union_example:
  "merge_fp_info_3way
     (Some (''Cat'' @ [CHR 0x0A] @ ''Name'' @ [CHR 0x0A] @ ''old 1'' @ [CHR 0x0A] @ ''end 1''))
     (Some (''Cat'' @ [CHR 0x0A] @ ''Name'' @ [CHR 0x0A] @ ''old 1'' @ [CHR 0x0A] @ ''end 1''))
     (Some (''Cat'' @ [CHR 0x0A] @ ''Name'' @ [CHR 0x0A] @ ''new 1'' @ [CHR 0x0A] @ ''end 1''))
   = Inr (''Cat'' @ [CHR 0x0A] @ ''Name'' @ [CHR 0x0A] @ ''new 1'' @ [CHR 0x0A])"
  by code_simp

section \<open>Properties of the three-way reconciler\<close>

text \<open>
  The classification table of the specification as a function: the content resolved for
  a key, or \<open>None\<close> for a key that is dropped. The first three arguments are the
  snapshots of the ancestor, of the mainline and of the proposed revision.
\<close>

definition resolved ::
  "(key \<rightharpoonup> string) \<Rightarrow> (key \<rightharpoonup> string) \<Rightarrow> (key \<rightharpoonup> string) \<Rightarrow> string \<Rightarrow> bool \<Rightarrow> key \<Rightarrow> string option" where
  "resolved M B H mode allow_deletions k =
     (case (M k, B k, H k) of
        (None, Some b, None) \<Rightarrow> Some b
      | (None, None, Some h) \<Rightarrow> Some h
      | (Some m, Some b, None) \<Rightarrow> if allow_deletions then None else Some b
      | (Some m, None, Some h) \<Rightarrow> Some h
      | (Some m, Some b, Some h) \<Rightarrow> Some (if mode = ''prefer-head'' then h else b)
      | (None, Some b, Some h) \<Rightarrow> Some (if mode = ''prefer-head'' then h else b)
      | (Some m, None, None) \<Rightarrow> None
      | (None, None, None) \<Rightarrow> None)"

lemma decide_resolved:
  "decide M B H mode allow_deletions k (K, R) =
     Inr (case resolved M B H mode allow_deletions k of
            None \<Rightarrow> (K, R)
          | Some c \<Rightarrow> (insert k K, R(k \<mapsto> c)))"
  by (cases "M k"; cases "B k"; cases "H k")
     (simp_all add: decide_def resolved_def keep_with_def lookup_def choose_overlap_def)

lemma decide_all_resolved:
  "decide_all M B H mode allow_deletions ks (K, R) =
     Inr (K \<union> {k \<in> set ks. resolved M B H mode allow_deletions k \<noteq> None},
          \<lambda>k. if k \<in> set ks \<and> resolved M B H mode allow_deletions k \<noteq> None
               then resolved M B H mode allow_deletions k else R k)"
proof (induction ks arbitrary: K R)
  case Nil
  show ?case by simp
next
  case (Cons k ks)
  show ?case
  proof (cases "resolved M B H mode allow_deletions k")
    case None
    then show ?thesis
      by (auto simp: decide_resolved Cons.IH fun_eq_iff)
  next
    case (Some c)
    then show ?thesis
      by (auto simp: decide_resolved Cons.IH fun_eq_iff)
  qed
qed

lemma resolved_None_outside:
  "k \<notin> dom M \<union> dom B \<union> dom H \<Longrightarrow> resolved M B H mode allow_deletions k = None"
  by (auto simp: resolved_def dom_def)

lemma reconcile_resolved:
  assumes "set (iter (dom (snapshot sha mb_txt) \<union> dom (snapshot sha base_txt) \<union> dom (snapshot sha head_txt)))
           = dom (snapshot sha mb_txt) \<union> dom (snapshot sha base_txt) \<union> dom (snapshot sha head_txt)"
  shows "reconcile sha iter mb_txt base_txt head_txt mode allow_deletions =
     Inr ({k. resolved (snapshot sha mb_txt) (snapshot sha base_txt) (snapshot sha head_txt) mode allow_deletions k \<noteq> None},
          resolved (snapshot sha mb_txt) (snapshot sha base_txt) (snapshot sha head_txt) mode allow_deletions)"
proof -
  let ?M = "snapshot sha mb_txt" and ?B = "snapshot sha base_txt" and ?H = "snapshot sha head_txt"
  let ?keys = "dom ?M \<union> dom ?B \<union> dom ?H"
  let ?r = "resolved ?M ?B ?H mode allow_deletions"
  have out: "\<And>k. k \<notin> ?keys \<Longrightarrow> ?r k = None" by (rule resolved_None_outside)
  have "reconcile sha iter mb_txt base_txt head_txt mode allow_deletions =
      Inr ({} \<union> {k \<in> set (iter ?keys). ?r k \<noteq> None},
           \<lambda>k. if k \<in> set (iter ?keys) \<and> ?r k \<noteq> None then ?r k else None)"
    by (simp add: reconcile_def Let_def decide_all_resolved)
  moreover have mem: "k \<in> set (iter ?keys)" if "?r k \<noteq> None" for k
  proof (rule ccontr)
    assume "k \<notin> set (iter ?keys)"
    then have "k \<notin> ?keys" unfolding assms .
    from out[OF this] that show False by simp
  qed
  then have "{} \<union> {k \<in> set (iter ?keys). ?r k \<noteq> None} = {k. ?r k \<noteq> None}"
    by blast
  moreover have "(\<lambda>k. if k \<in> set (iter ?keys) \<and> ?r k \<noteq> None then ?r k else None) = ?r"
  proof (rule ext)
    fix k
    show "(if k \<in> set (iter ?keys) \<and> ?r k \<noteq> None then ?r k else None) = ?r k"
      using mem[of k] by (cases "?r k") simp_all
  qed
  ultimately show ?thesis by (simp only:)
qed

text \<open>
  Claim C1: for every triple of snapshot texts and every key in the union of the three
  snapshots, the decision of the reconciler is the one of the classification table. A key
  only in the mainline is kept with the mainline block; a key only in the proposed
  revision is kept with the proposed block; a key in the ancestor and the mainline but
  not in the proposed revision is dropped when deletions are allowed and kept with the
  mainline block otherwise; a key in the ancestor and the proposed revision but not in
  the mainline is kept with the proposed block; a key in the mainline and the proposed
  revision, in the ancestor or not, is kept with the proposed block in the mode
  \<^verbatim>\<open>prefer-head\<close> and with the mainline block in the mode \<^verbatim>\<open>prefer-base\<close>; a key only in
  the ancestor is dropped. The hypothesis says that iterating over the set of keys
  visits exactly its elements.
\<close>

theorem reconcile_classification:
  assumes "set (iter (dom (snapshot sha mb_txt) \<union> dom (snapshot sha base_txt) \<union> dom (snapshot sha head_txt)))
           = dom (snapshot sha mb_txt) \<union> dom (snapshot sha base_txt) \<union> dom (snapshot sha head_txt)"
  shows "\<exists>keep_keys replace_map.
     reconcile sha iter mb_txt base_txt head_txt mode allow_deletions = Inr (keep_keys, replace_map) \<and>
     (\<forall>k \<in> dom (snapshot sha mb_txt) \<union> dom (snapshot sha base_txt) \<union> dom (snapshot sha head_txt).
        (let inM = (snapshot sha mb_txt k \<noteq> None);
             inB = (snapshot sha base_txt k \<noteq> None);
             inH = (snapshot sha head_txt k \<noteq> None);
             from_B = (k \<in> keep_keys \<and> replace_map k = snapshot sha base_txt k);
             from_H = (k \<in> keep_keys \<and> replace_map k = snapshot sha head_txt k);
             dropped = (k \<notin> keep_keys)
         in (\<not> inM \<and> inB \<and> \<not> inH \<longrightarrow> from_B) \<and>
            (\<not> inM \<and> \<not> inB \<and> inH \<longrightarrow> from_H) \<and>
            (inM \<and> inB \<and> \<not> inH \<longrightarrow> (if allow_deletions then dropped else from_B)) \<and>
            (inM \<and> \<not> inB \<and> inH \<longrightarrow> from_H) \<and>
            (inB \<and> inH \<longrightarrow> (mode = ''prefer-head'' \<longrightarrow> from_H) \<and> (mode = ''prefer-base'' \<longrightarrow> from_B)) \<and>
            (inM \<and> \<not> inB \<and> \<not> inH \<longrightarrow> dropped)))"
proof -
  let ?r = "resolved (snapshot sha mb_txt) (snapshot sha base_txt) (snapshot sha head_txt) mode allow_deletions"
  have r: "reconcile sha iter mb_txt base_txt head_txt mode allow_deletions = Inr ({k. ?r k \<noteq> None}, ?r)"
    by (rule reconcile_resolved[where iter=iter and sha=sha and mb_txt=mb_txt and base_txt=base_txt and head_txt=head_txt and mode=mode and allow_deletions=allow_deletions, OF assms])
  have rows: "let inM = (snapshot sha mb_txt k \<noteq> None);
             inB = (snapshot sha base_txt k \<noteq> None);
             inH = (snapshot sha head_txt k \<noteq> None);
             from_B = (k \<in> {k. ?r k \<noteq> None} \<and> ?r k = snapshot sha base_txt k);
             from_H = (k \<in> {k. ?r k \<noteq> None} \<and> ?r k = snapshot sha head_txt k);
             dropped = (k \<notin> {k. ?r k \<noteq> None})
         in (\<not> inM \<and> inB \<and> \<not> inH \<longrightarrow> from_B) \<and>
            (\<not> inM \<and> \<not> inB \<and> inH \<longrightarrow> from_H) \<and>
            (inM \<and> inB \<and> \<not> inH \<longrightarrow> (if allow_deletions then dropped else from_B)) \<and>
            (inM \<and> \<not> inB \<and> inH \<longrightarrow> from_H) \<and>
            (inB \<and> inH \<longrightarrow> (mode = ''prefer-head'' \<longrightarrow> from_H) \<and> (mode = ''prefer-base'' \<longrightarrow> from_B)) \<and>
            (inM \<and> \<not> inB \<and> \<not> inH \<longrightarrow> dropped)" for k
    by (cases "snapshot sha mb_txt k"; cases "snapshot sha base_txt k"; cases "snapshot sha head_txt k")
       (simp_all add: Let_def resolved_def)
  show ?thesis
    unfolding r using rows by blast
qed

text \<open>
  Claim C2: a key that is absent from the ancestor snapshot and present in the mainline
  or in the proposed snapshot is never dropped: it is in the keep set, in every mode and
  with deletions allowed or not.
\<close>

theorem new_work_is_never_dropped:
  assumes "set (iter (dom (snapshot sha mb_txt) \<union> dom (snapshot sha base_txt) \<union> dom (snapshot sha head_txt)))
           = dom (snapshot sha mb_txt) \<union> dom (snapshot sha base_txt) \<union> dom (snapshot sha head_txt)"
    and "snapshot sha mb_txt k = None"
    and "snapshot sha base_txt k \<noteq> None \<or> snapshot sha head_txt k \<noteq> None"
  shows "\<exists>keep_keys replace_map.
     reconcile sha iter mb_txt base_txt head_txt mode allow_deletions = Inr (keep_keys, replace_map) \<and>
     k \<in> keep_keys"
proof -
  let ?r = "resolved (snapshot sha mb_txt) (snapshot sha base_txt) (snapshot sha head_txt) mode allow_deletions"
  have r: "reconcile sha iter mb_txt base_txt head_txt mode allow_deletions = Inr ({k. ?r k \<noteq> None}, ?r)"
    by (rule reconcile_resolved[where iter=iter and sha=sha and mb_txt=mb_txt and base_txt=base_txt and head_txt=head_txt and mode=mode and allow_deletions=allow_deletions, OF assms(1)])
  have "?r k \<noteq> None"
    using assms(2,3)
    by (cases "snapshot sha base_txt k"; cases "snapshot sha head_txt k") (simp_all add: resolved_def)
  then show ?thesis unfolding r by blast
qed


text \<open>
  An example with a wire in all three revisions, rewritten by the proposed revision, and
  a label added on the mainline. Every block carries a uuid field, so no digest is
  computed and the digest function is left as the identity.
\<close>

lemma dom_dict_of_aux:
  "dom (fold (\<lambda>(h, u, blk) d. d((h, u) \<mapsto> blk)) blocks d0) = dom d0 \<union> (\<lambda>(h, u, blk). (h, u)) ` set blocks"
  by (induction blocks arbitrary: d0) (auto split: prod.splits)

lemma dom_dict_of: "dom (dict_of blocks) = (\<lambda>(h, u, blk). (h, u)) ` set blocks"
  by (simp add: dict_of_def dom_dict_of_aux)

lemma example_ancestor_blocks: "parse_top_blocks (\<lambda>s. s) (Some ''(wire (uuid aaaaaaaa))'')
    = [(''wire'', ''aaaaaaaa'', ''(wire (uuid aaaaaaaa))'')]"
  by code_simp
lemma example_mainline_blocks: "parse_top_blocks (\<lambda>s. s) (Some ''(wire (uuid aaaaaaaa))(label (uuid bbbbbbbb))'')
    = [(''wire'', ''aaaaaaaa'', ''(wire (uuid aaaaaaaa))''), (''label'', ''bbbbbbbb'', ''(label (uuid bbbbbbbb))'')]"
  by code_simp
lemma example_proposed_blocks: "parse_top_blocks (\<lambda>s. s) (Some ''(wire (uuid AAAAAAAA) x)'')
    = [(''wire'', ''aaaaaaaa'', ''(wire (uuid AAAAAAAA) x)'')]"
  by code_simp

lemma example_ancestor:
  "snapshot (\<lambda>s. s) (Some ''(wire (uuid aaaaaaaa))'')
     = [(''wire'', ''aaaaaaaa'') \<mapsto> ''(wire (uuid aaaaaaaa))'']"
  by (simp add: snapshot_def example_ancestor_blocks dict_of_def)

lemma example_mainline:
  "snapshot (\<lambda>s. s) (Some ''(wire (uuid aaaaaaaa))(label (uuid bbbbbbbb))'')
     = [(''wire'', ''aaaaaaaa'') \<mapsto> ''(wire (uuid aaaaaaaa))'',
        (''label'', ''bbbbbbbb'') \<mapsto> ''(label (uuid bbbbbbbb))'']"
  by (simp add: snapshot_def example_mainline_blocks dict_of_def)

lemma example_proposed:
  "snapshot (\<lambda>s. s) (Some ''(wire (uuid AAAAAAAA) x)'')
     = [(''wire'', ''aaaaaaaa'') \<mapsto> ''(wire (uuid AAAAAAAA) x)'']"
  by (simp add: snapshot_def example_proposed_blocks dict_of_def)

theorem reconcile_classification_witness:
  "\<exists>keep_keys replace_map.
     reconcile (\<lambda>s. s) (\<lambda>_. [(''wire'', ''aaaaaaaa''), (''label'', ''bbbbbbbb'')])
       (Some ''(wire (uuid aaaaaaaa))'')
       (Some ''(wire (uuid aaaaaaaa))(label (uuid bbbbbbbb))'')
       (Some ''(wire (uuid AAAAAAAA) x)'') ''prefer-head'' False = Inr (keep_keys, replace_map) \<and>
     (''wire'', ''aaaaaaaa'') \<in> keep_keys \<and>
     replace_map (''wire'', ''aaaaaaaa'') = Some ''(wire (uuid AAAAAAAA) x)'' \<and>
     (''label'', ''bbbbbbbb'') \<in> keep_keys \<and>
     replace_map (''label'', ''bbbbbbbb'') = Some ''(label (uuid bbbbbbbb))''"
proof -
  show ?thesis
    using reconcile_classification[where sha="\<lambda>s. s"
        and iter="\<lambda>_. [(''wire'', ''aaaaaaaa''), (''label'', ''bbbbbbbb'')]"
        and mb_txt="Some ''(wire (uuid aaaaaaaa))''"
        and base_txt="Some ''(wire (uuid aaaaaaaa))(label (uuid bbbbbbbb))''"
        and head_txt="Some ''(wire (uuid AAAAAAAA) x)''"
        and mode="''prefer-head''" and allow_deletions=False]
    unfolding example_ancestor example_mainline example_proposed
    by (simp add: Let_def insert_commute)
qed

theorem new_work_is_never_dropped_witness:
  "snapshot (\<lambda>s. s) (Some ''(wire (uuid aaaaaaaa))'') (''label'', ''bbbbbbbb'') = None \<and>
   snapshot (\<lambda>s. s) (Some ''(wire (uuid aaaaaaaa))(label (uuid bbbbbbbb))'') (''label'', ''bbbbbbbb'') \<noteq> None \<and>
   (\<exists>keep_keys replace_map.
     reconcile (\<lambda>s. s) (\<lambda>_. [(''wire'', ''aaaaaaaa''), (''label'', ''bbbbbbbb'')])
       (Some ''(wire (uuid aaaaaaaa))'')
       (Some ''(wire (uuid aaaaaaaa))(label (uuid bbbbbbbb))'')
       (Some ''(wire (uuid AAAAAAAA) x)'') ''prefer-base'' True = Inr (keep_keys, replace_map) \<and>
     (''label'', ''bbbbbbbb'') \<in> keep_keys)"
proof -
  show ?thesis
    using new_work_is_never_dropped[where sha="\<lambda>s. s"
        and iter="\<lambda>_. [(''wire'', ''aaaaaaaa''), (''label'', ''bbbbbbbb'')]"
        and mb_txt="Some ''(wire (uuid aaaaaaaa))''"
        and base_txt="Some ''(wire (uuid aaaaaaaa))(label (uuid bbbbbbbb))''"
        and head_txt="Some ''(wire (uuid AAAAAAAA) x)''"
        and mode="''prefer-base''" and allow_deletions=True and k="(''label'', ''bbbbbbbb'')"]
    unfolding example_ancestor example_mainline example_proposed
    by (simp add: insert_commute)
qed

section \<open>Documents that are absent at a revision\<close>

lemma snapshot_None: "snapshot sha None = Map.empty"
  by (simp add: snapshot_def parse_top_blocks_def dict_of_def)

lemma lookup_all_Inr_iff: "lookup_all d ks = Inr vs \<longleftrightarrow> map d ks = map Some vs"
proof (induction ks arbitrary: vs)
  case Nil
  show ?case by auto
next
  case (Cons k ks)
  show ?case
  proof (cases "d k")
    case None
    then show ?thesis by (auto simp: lookup_def)
  next
    case (Some v)
    show ?thesis
    proof (cases "lookup_all d ks")
      case (Inl e)
      with Cons.IH have "\<And>ws. map d ks \<noteq> map Some ws" by auto
      with Inl Some show ?thesis by (cases vs) (auto simp: lookup_def)
    next
      case (Inr ws)
      with Cons.IH[of ws] have "map d ks = map Some ws" by simp
      with Inr Some show ?thesis by (cases vs) (auto simp: lookup_def)
    qed
  qed
qed

lemma lookup_all_total:
  assumes "set ks \<subseteq> dom d"
  shows "\<exists>vs. lookup_all d ks = Inr vs"
  using assms
proof (induction ks)
  case Nil
  show ?case by simp
next
  case (Cons k ks)
  then obtain v vs where "d k = Some v" "lookup_all d ks = Inr vs" by auto
  then show ?case by (simp add: lookup_def)
qed

lemma find_blocks_skeleton: "find_blocks_with_pos sha skeleton = []"
  by code_simp

lemma rstrip_skeleton: "rstrip skeleton = skeleton"
  by code_simp

lemma rebuild_from_None:
  "rebuild_from sha iter None keep_map replace_map =
     (case lookup_all replace_map (iter keep_map) of
        Inl e \<Rightarrow> Inl e
      | Inr missing \<Rightarrow>
          Inr (if missing \<noteq> [] then
                 ''(kicad_sch (version 20211014) (generator merged)'' @ [CHR 0x0A]
                 @ [CHR 0x0A] @ join [CHR 0x0A, CHR 0x0A] missing @ [CHR 0x0A] @ '')''
               else ''(kicad_sch (version 20211014) (generator merged)'' @ [CHR 0x0A] @ '')''))"
proof -
  have e: "endswith_rparen skeleton" by code_simp
  have b: "butlast skeleton = ''(kicad_sch (version 20211014) (generator merged)'' @ [CHR 0x0A]"
    by code_simp
  show ?thesis
    unfolding rebuild_from_def
    by (simp add: find_blocks_skeleton rstrip_skeleton e b Let_def split: sum.splits)
       (simp add: skeleton_def)
qed


lemma resolved_no_mainline:
  "resolved M Map.empty H mode allow_deletions = H"
  by (rule ext) (simp add: resolved_def split: option.splits)

text \<open>
  Claim C7: a document that is absent at a revision gives the empty snapshot and no
  error, since parsing the null document yields no blocks. When the mainline document is
  absent the rebuilder starts from the fixed skeleton
  \<^verbatim>\<open>(kicad_sch (version 20211014) (generator merged)\<close>, a newline and \<^verbatim>\<open>)\<close>, and applies
  the keep set to it, so a merged document is still produced: the skeleton itself when
  nothing is kept, and otherwise the skeleton with the kept blocks, which are the blocks
  of the proposed revision, put before its closing parenthesis. The hypothesis says that
  iterating over a set of keys visits its elements.
\<close>

theorem absent_documents:
  "parse_top_blocks sha None = [] \<and>
   snapshot sha None = Map.empty \<and>
   rebuild_from sha iter None keep_map replace_map =
     rebuild_from sha iter
       (Some (''(kicad_sch (version 20211014) (generator merged)'' @ [CHR 0x0A] @ '')''))
       keep_map replace_map \<and>
   (set (iter (dom (snapshot sha mb_txt) \<union> dom (snapshot sha head_txt)))
      = dom (snapshot sha mb_txt) \<union> dom (snapshot sha head_txt) \<and>
    set (iter (dom (snapshot sha head_txt))) \<subseteq> dom (snapshot sha head_txt) \<longrightarrow>
    (\<exists>missing.
       map (snapshot sha head_txt) (iter (dom (snapshot sha head_txt))) = map Some missing \<and>
       merge_kicad_3way sha iter mb_txt None head_txt mode allow_deletions =
         Inr (if missing \<noteq> [] then
                ''(kicad_sch (version 20211014) (generator merged)'' @ [CHR 0x0A]
                @ [CHR 0x0A] @ join [CHR 0x0A, CHR 0x0A] missing @ [CHR 0x0A] @ '')''
              else ''(kicad_sch (version 20211014) (generator merged)'' @ [CHR 0x0A] @ '')'')))"
proof (intro conjI impI)
  show "parse_top_blocks sha None = []" by (simp add: parse_top_blocks_def)
  show e: "snapshot sha None = Map.empty" by (rule snapshot_None)
  show "rebuild_from sha iter None keep_map replace_map =
     rebuild_from sha iter
       (Some (''(kicad_sch (version 20211014) (generator merged)'' @ [CHR 0x0A] @ '')''))
       keep_map replace_map"
    by (simp add: rebuild_from_def skeleton_def)
  let ?M = "snapshot sha mb_txt" and ?H = "snapshot sha head_txt"
  assume a: "set (iter (dom ?M \<union> dom ?H)) = dom ?M \<union> dom ?H \<and> set (iter (dom ?H)) \<subseteq> dom ?H"
  then have "set (iter (dom ?M \<union> dom (snapshot sha None) \<union> dom ?H))
      = dom ?M \<union> dom (snapshot sha None) \<union> dom ?H"
    by (simp add: e)
  from reconcile_resolved[where iter=iter and sha=sha and mb_txt=mb_txt and base_txt=None
      and head_txt=head_txt and mode=mode and allow_deletions=allow_deletions, OF this]
  have r: "reconcile sha iter mb_txt None head_txt mode allow_deletions = Inr (dom ?H, ?H)"
    by (simp add: e resolved_no_mainline dom_def)
  from a obtain missing where m: "lookup_all ?H (iter (dom ?H)) = Inr missing"
    using lookup_all_total by blast
  then have "map ?H (iter (dom ?H)) = map Some missing"
    by (simp add: lookup_all_Inr_iff)
  moreover have "merge_kicad_3way sha iter mb_txt None head_txt mode allow_deletions =
         Inr (if missing \<noteq> [] then
                ''(kicad_sch (version 20211014) (generator merged)'' @ [CHR 0x0A]
                @ [CHR 0x0A] @ join [CHR 0x0A, CHR 0x0A] missing @ [CHR 0x0A] @ '')''
              else ''(kicad_sch (version 20211014) (generator merged)'' @ [CHR 0x0A] @ '')'')"
    unfolding merge_kicad_3way_def r by (simp add: rebuild_from_None m)
  ultimately show "\<exists>missing.
       map ?H (iter (dom ?H)) = map Some missing \<and>
       merge_kicad_3way sha iter mb_txt None head_txt mode allow_deletions =
         Inr (if missing \<noteq> [] then
                ''(kicad_sch (version 20211014) (generator merged)'' @ [CHR 0x0A]
                @ [CHR 0x0A] @ join [CHR 0x0A, CHR 0x0A] missing @ [CHR 0x0A] @ '')''
              else ''(kicad_sch (version 20211014) (generator merged)'' @ [CHR 0x0A] @ '')'')"
    by blast
qed

theorem absent_documents_witness:
  "merge_kicad_3way (\<lambda>s. s) (\<lambda>_. [(''wire'', ''aaaaaaaa'')]) None None
     (Some ''(wire (uuid AAAAAAAA) x)'') ''prefer-head'' False =
   Inr (''(kicad_sch (version 20211014) (generator merged)'' @ [CHR 0x0A, CHR 0x0A]
        @ ''(wire (uuid AAAAAAAA) x)'' @ [CHR 0x0A] @ '')'')"
proof -
  show ?thesis
    using absent_documents[where sha="\<lambda>s. s" and iter="\<lambda>_. [(''wire'', ''aaaaaaaa'')]"
        and mb_txt=None and head_txt="Some ''(wire (uuid AAAAAAAA) x)''"
        and mode="''prefer-head''" and allow_deletions=False
        and keep_map="{}" and replace_map=Map.empty]
    unfolding example_proposed snapshot_None by auto
qed

end
